theory Spec2Isabelle
  imports Main "HOL-Library.Word"
begin

unbundle bit_operations_syntax

section \<open>The byte codec of \<open>Converter::run\<close>\<close>

text \<open>
  A byte read from the source is a \<open>char\<close>. In the expressions \<open>byte >> 6\<close> and
  \<open>byte & 0x3f\<close> it is promoted to \<open>int\<close>; plain \<open>char\<close> is taken to be signed, so the
  promoted value is \<open>sint byte\<close>, the shift is arithmetic (\<open>drop_bit\<close> on \<open>int\<close>) and
  \<open>AND\<close> works on the two's complement representation. The lemmas \<open>byte_type_unsigned\<close>
  and \<open>byte_data_unsigned\<close> below show that an unsigned \<open>char\<close> gives the same values.
\<close>

type_synonym byte = "8 word"

subsection \<open>\<open>std::to_string(int)\<close>\<close>

definition digit_char :: "nat \<Rightarrow> char" where
  "digit_char d = char_of (of_char CHR ''0'' + d)"

function dec_digits :: "nat \<Rightarrow> string" where
  "dec_digits n =
     (if n < 10 then [digit_char n]
      else dec_digits (n div 10) @ [digit_char (n mod 10)])"
  by pat_completeness auto
termination
  by (relation "measure id") auto

declare dec_digits.simps [simp del]

definition to_string :: "int \<Rightarrow> string" where
  "to_string i = (if i < 0 then CHR ''-'' # dec_digits (nat (- i)) else dec_digits (nat i))"

text \<open>Reading a digit string back, to say what a decimal string is.\<close>

definition decimal_value :: "string \<Rightarrow> nat" where
  "decimal_value cs = foldl (\<lambda>acc c. 10 * acc + (of_char c - of_char CHR ''0'')) 0 cs"

subsection \<open>Lines 119 to 136: type, data and the switch\<close>

definition byte_type :: "byte \<Rightarrow> int" where
  "byte_type byte = drop_bit 6 (sint byte) AND 0x03"

definition byte_data :: "byte \<Rightarrow> int" where
  "byte_data byte = sint byte AND 0x3f"

text \<open>\<open>static_cast<int8_t>(data)\<close>, promoted back to \<open>int\<close> for \<open>std::to_string\<close>.\<close>

definition int8_cast :: "int \<Rightarrow> int" where
  "int8_cast i = sint (word_of_int i :: 8 word)"

text \<open>
  The switch: \<open>Some str\<close> is the string built by the matching case, \<open>None\<close> is the
  \<open>default\<close> branch, which leaves the iteration with \<open>continue\<close>. The character
  \<open>'a' + data\<close> is an \<open>int\<close> narrowed to \<open>char\<close>, which \<open>char_of\<close> does modulo 256.
\<close>

definition convert :: "byte \<Rightarrow> string option" where
  "convert byte =
    (let type = byte_type byte; data = byte_data byte in
     if type = 0 then Some (to_string data)
     else if type = 1 then Some (to_string (int8_cast data))
     else if type = 2 then Some [char_of (of_char CHR ''a'' + data)]
     else None)"

subsection \<open>The wire format in the words of the specification\<close>

text \<open>Bits 7-6 are the kind, bits 5-0 the payload, both read from the unsigned byte.\<close>

definition kind :: "byte \<Rightarrow> nat" where
  "kind b = unat (drop_bit 6 b)"

definition payload :: "byte \<Rightarrow> nat" where
  "payload b = unat (b AND 0x3f)"

definition alphabet :: string where
  "alphabet = ''abcdefghijklmnopqrstuvwxyz''"


text \<open>
  The rendering of a byte as the specification words it: kind 00 is the unsigned decimal
  of the payload, kind 01 the signed decimal, kind 10 the character \<open>'a' + payload\<close>;
  kind 11 is reserved and renders nothing.
\<close>

definition rendering :: "byte \<Rightarrow> string" where
  "rendering b =
    (if kind b = 0 then dec_digits (payload b)
     else if kind b = 1 then to_string (int (payload b))
     else [char_of (of_char CHR ''a'' + int (payload b))])"

definition expected_output :: "byte list \<Rightarrow> string list" where
  "expected_output bs = map rendering (filter (\<lambda>b. kind b \<noteq> 3) bs)"

section \<open>The converter: one worker thread and its owner\<close>

text \<open>
  The control points of the worker inside \<open>run()\<close>. \<open>Waiting\<close> is the worker blocked
  inside \<open>cv_.wait(lock)\<close> with the mutex released; \<open>Woken\<close> is the worker after a
  notification or a spurious wakeup, before it has got the mutex back; \<open>Exited\<close> is a
  worker whose \<open>run()\<close> has returned and that has not been joined yet.
\<close>

datatype worker_pc =
    At_while          \<comment> \<open>line 110, about to test \<open>running_\<close>\<close>
  | At_lock           \<comment> \<open>line 111, about to lock the mutex\<close>
  | At_read           \<comment> \<open>line 114, about to call \<open>source_.read(byte)\<close>\<close>
  | At_write string   \<comment> \<open>line 139, about to call \<open>sink_.write(str)\<close>\<close>
  | At_wait           \<comment> \<open>line 141, about to call \<open>cv_.wait(lock)\<close>\<close>
  | Waiting
  | Woken
  | Exited

text \<open>The control points of the owning thread inside \<open>start()\<close> and \<open>stop()\<close>.\<close>

datatype caller_pc =
    Idle
  | Start_test        \<comment> \<open>line 75, \<open>if (running_)\<close>\<close>
  | Start_set         \<comment> \<open>line 79, \<open>running_ = true\<close>\<close>
  | Start_spawn       \<comment> \<open>line 80, \<open>thread_ = std::thread(...)\<close>\<close>
  | Stop_test         \<comment> \<open>line 89, \<open>if (!running_)\<close>\<close>
  | Stop_clear        \<comment> \<open>line 93, \<open>running_ = false\<close>\<close>
  | Stop_notify       \<comment> \<open>line 94, \<open>cv_.notify_all()\<close>\<close>
  | Stop_joinable     \<comment> \<open>line 95, \<open>if (thread_.joinable())\<close>\<close>
  | Stop_join         \<comment> \<open>line 96, \<open>thread_.join()\<close>\<close>

text \<open>
  The state of a \<open>Converter\<close> with its collaborators. \<open>thread\<close> is \<open>None\<close> while
  \<open>thread_\<close> is not joinable and otherwise holds the control point of the worker.
  \<open>source\<close> is what the source will still deliver; on the empty list \<open>read\<close> returns
  false. \<open>sink\<close> is the sequence of strings passed to \<open>sink_.write\<close>. \<open>reads\<close> counts
  the calls of \<open>source_.read\<close>, \<open>consumed\<close> records the bytes they delivered, and
  \<open>spawned\<close> counts the threads created. \<open>terminated\<close> is set when \<open>std::terminate\<close>
  is called, which is what assigning to a joinable \<open>std::thread\<close> does.
\<close>

record converter =
  running :: bool
  thread :: "worker_pc option"
  mutex :: bool
  caller :: caller_pc
  source :: "byte list"
  reads :: nat
  consumed :: "byte list"
  sink :: "string list"
  spawned :: nat
  terminated :: bool

text \<open>The constructor, lines 57 and 58.\<close>

definition Converter :: "byte list \<Rightarrow> converter" where
  "Converter src =
    \<lparr>running = False, thread = None, mutex = False, caller = Idle, source = src,
     reads = 0, consumed = [], sink = [], spawned = 0, terminated = False\<rparr>"

subsection \<open>\<open>run()\<close>, lines 109 to 143, one statement at a time\<close>

text \<open>
  \<open>None\<close> means that the worker cannot move: it is blocked or has exited. Leaving the
  loop body by \<open>break\<close>, by \<open>continue\<close> or at its end destroys \<open>lock\<close> and so unlocks
  the mutex. Returning from \<open>cv_.wait\<close> takes the mutex again; the body ends right
  after, so \<open>Woken\<close> needs the mutex free and leaves it free.
\<close>

fun run :: "worker_pc \<Rightarrow> converter \<Rightarrow> converter option" where
  "run At_while s =
     Some (if running s then s\<lparr>thread := Some At_lock\<rparr> else s\<lparr>thread := Some Exited\<rparr>)"
| "run At_lock s =
     (if mutex s then None else Some (s\<lparr>mutex := True, thread := Some At_read\<rparr>))"
| "run At_read s =
     (case source s of
        [] \<Rightarrow> Some (s\<lparr>reads := Suc (reads s), mutex := False, thread := Some Exited\<rparr>)
      | byte # rest \<Rightarrow>
          (case convert byte of
             None \<Rightarrow>
               Some (s\<lparr>reads := Suc (reads s), source := rest, consumed := consumed s @ [byte],
                       mutex := False, thread := Some At_while\<rparr>)
           | Some str \<Rightarrow>
               Some (s\<lparr>reads := Suc (reads s), source := rest, consumed := consumed s @ [byte],
                       thread := Some (At_write str)\<rparr>)))"
| "run (At_write str) s = Some (s\<lparr>sink := sink s @ [str], thread := Some At_wait\<rparr>)"
| "run At_wait s = Some (s\<lparr>mutex := False, thread := Some Waiting\<rparr>)"
| "run Waiting s = None"
| "run Woken s = (if mutex s then None else Some (s\<lparr>thread := Some At_while\<rparr>))"
| "run Exited s = None"

subsection \<open>\<open>start()\<close>, lines 74 to 81\<close>

fun start :: "caller_pc \<Rightarrow> converter \<Rightarrow> converter option" where
  "start Start_test s =
     Some (if running s then s\<lparr>caller := Idle\<rparr> else s\<lparr>caller := Start_set\<rparr>)"
| "start Start_set s = Some (s\<lparr>running := True, caller := Start_spawn\<rparr>)"
| "start Start_spawn s =
     Some (case thread s of
             None \<Rightarrow> s\<lparr>thread := Some At_while, spawned := Suc (spawned s), caller := Idle\<rparr>
           | Some pc \<Rightarrow> s\<lparr>spawned := Suc (spawned s), terminated := True\<rparr>)"
| "start pc s = None"

subsection \<open>\<open>stop()\<close>, lines 88 to 98\<close>

text \<open>
  \<open>notify_all\<close> wakes the worker only when it is waiting at that moment; \<open>stop()\<close>
  never touches the mutex. \<open>join\<close> blocks until the worker has exited; it is reached
  only after \<open>joinable()\<close> has answered true, and only the owner makes \<open>thread_\<close>
  unjoinable, so the case of a \<open>join\<close> that throws does not arise.
\<close>

definition notify_all :: "worker_pc option \<Rightarrow> worker_pc option" where
  "notify_all t = (if t = Some Waiting then Some Woken else t)"

fun stop :: "caller_pc \<Rightarrow> converter \<Rightarrow> converter option" where
  "stop Stop_test s =
     Some (if \<not> running s then s\<lparr>caller := Idle\<rparr> else s\<lparr>caller := Stop_clear\<rparr>)"
| "stop Stop_clear s = Some (s\<lparr>running := False, caller := Stop_notify\<rparr>)"
| "stop Stop_notify s = Some (s\<lparr>thread := notify_all (thread s), caller := Stop_joinable\<rparr>)"
| "stop Stop_joinable s =
     Some (if thread s \<noteq> None then s\<lparr>caller := Stop_join\<rparr> else s\<lparr>caller := Idle\<rparr>)"
| "stop Stop_join s =
     (if thread s = Some Exited then Some (s\<lparr>thread := None, caller := Idle\<rparr>) else None)"
| "stop pc s = None"

subsection \<open>Interleavings\<close>

text \<open>
  The two threads interleave statement by statement: every statement that touches the
  shared state (\<open>running_\<close>, \<open>thread_\<close>, the mutex, the condition variable, the source
  and the sink) is one atomic step, and computation on locals (lines 119 to 136) belongs
  to the step of the read before it. The declarations of the members are not among the
  sources; \<open>running_\<close> is read and written as an atomic flag, the most favourable
  reading for the code.

  The owner is one thread, so calls of \<open>start()\<close> and \<open>stop()\<close> do not overlap.
  A schedule is a list of actions: the owner calls \<open>start()\<close> or \<open>stop()\<close> (possible
  only between calls), the owner or the worker executes its next statement, or the
  waiting worker wakes up spuriously, which \<open>std::condition_variable::wait\<close> allows.
  An action that is not enabled gives \<open>None\<close>: a blocked thread cannot move.
\<close>

datatype action = Call_start | Call_stop | Caller | Worker | Spurious

fun in_start :: "caller_pc \<Rightarrow> bool" where
  "in_start Start_test = True"
| "in_start Start_set = True"
| "in_start Start_spawn = True"
| "in_start pc = False"

fun step :: "action \<Rightarrow> converter \<Rightarrow> converter option" where
  "step Call_start s =
     (if terminated s \<or> caller s \<noteq> Idle then None else Some (s\<lparr>caller := Start_test\<rparr>))"
| "step Call_stop s =
     (if terminated s \<or> caller s \<noteq> Idle then None else Some (s\<lparr>caller := Stop_test\<rparr>))"
| "step Caller s =
     (if terminated s then None
      else if in_start (caller s) then start (caller s) s else stop (caller s) s)"
| "step Worker s =
     (if terminated s then None
      else case thread s of None \<Rightarrow> None | Some pc \<Rightarrow> run pc s)"
| "step Spurious s =
     (if terminated s \<or> thread s \<noteq> Some Waiting then None
      else Some (s\<lparr>thread := Some Woken\<rparr>))"

fun exec :: "action list \<Rightarrow> converter \<Rightarrow> converter option" where
  "exec [] s = Some s"
| "exec (a # as) s = (case step a s of None \<Rightarrow> None | Some s' \<Rightarrow> exec as s')"

text \<open>The string the worker has built and not yet written.\<close>

definition pending :: "converter \<Rightarrow> string list" where
  "pending s = (case thread s of Some (At_write str) \<Rightarrow> [str] | _ \<Rightarrow> [])"

section \<open>Invariants, schedules and concrete runs\<close>

text \<open>
  What holds of the output in every state: the strings written, followed by the one
  about to be written, are the strings of the bytes delivered, and the bytes delivered
  followed by those still to come are the source stream \<open>src\<close>.
\<close>

definition output_inv :: "byte list \<Rightarrow> converter \<Rightarrow> bool" where
  "output_inv src s \<longleftrightarrow>
     sink s @ pending s = List.map_filter convert (consumed s) \<and> consumed s @ source s = src"

text \<open>
  How \<open>running_\<close> (\<open>r\<close>) and \<open>thread_.joinable()\<close> (\<open>j\<close>) are related at each control
  point of the owner.
\<close>

fun owner_inv :: "caller_pc \<Rightarrow> bool \<Rightarrow> bool \<Rightarrow> bool" where
  "owner_inv Idle r j = (r = j)"
| "owner_inv Start_test r j = (r = j)"
| "owner_inv Start_set r j = (\<not> r \<and> \<not> j)"
| "owner_inv Start_spawn r j = (r \<and> \<not> j)"
| "owner_inv Stop_test r j = (r = j)"
| "owner_inv Stop_clear r j = (r \<and> j)"
| "owner_inv Stop_notify r j = (\<not> r \<and> j)"
| "owner_inv Stop_joinable r j = (\<not> r \<and> j)"
| "owner_inv Stop_join r j = (\<not> r \<and> j)"

definition lifecycle_inv :: "converter \<Rightarrow> bool" where
  "lifecycle_inv s \<longleftrightarrow>
     \<not> terminated s \<and> owner_inv (caller s) (running s) (thread s \<noteq> None)"

text \<open>
  The progress of one call of \<open>start()\<close> that was made when \<open>running_\<close> was \<open>r0\<close> and
  \<open>n0\<close> threads had been created.
\<close>

fun start_phase :: "caller_pc \<Rightarrow> bool \<Rightarrow> nat \<Rightarrow> bool \<Rightarrow> nat \<Rightarrow> bool" where
  "start_phase Start_test r0 n0 r n = (r = r0 \<and> n = n0)"
| "start_phase Start_set r0 n0 r n = (\<not> r0 \<and> n = n0)"
| "start_phase Start_spawn r0 n0 r n = (\<not> r0 \<and> n = n0)"
| "start_phase Idle r0 n0 r n = (r \<and> n = (if r0 then n0 else Suc n0))"
| "start_phase pc r0 n0 r n = False"

definition start_inv :: "bool \<Rightarrow> nat \<Rightarrow> converter \<Rightarrow> bool" where
  "start_inv r0 n0 s \<longleftrightarrow>
     lifecycle_inv s \<and> start_phase (caller s) r0 n0 (running s) (spawned s)"

text \<open>The progress of one call of \<open>stop()\<close>: once it has returned, \<open>running_\<close> is false.\<close>

fun stop_phase :: "caller_pc \<Rightarrow> bool \<Rightarrow> bool" where
  "stop_phase Idle r = (\<not> r)"
| "stop_phase Start_test r = False"
| "stop_phase Start_set r = False"
| "stop_phase Start_spawn r = False"
| "stop_phase pc r = True"

definition stop_inv :: "converter \<Rightarrow> bool" where
  "stop_inv s \<longleftrightarrow> lifecycle_inv s \<and> stop_phase (caller s) (running s)"

text \<open>The owner running a whole call with no step of the worker in between.\<close>

definition start_call :: "action list" where
  "start_call = [Call_start, Caller, Caller, Caller]"

definition stop_call :: "action list" where
  "stop_call = [Call_stop, Caller, Caller, Caller, Caller, Caller]"

text \<open>
  A worker that has exited while \<open>running_\<close> is set has exited at the end of the
  stream.
\<close>

definition exit_inv :: "converter \<Rightarrow> bool" where
  "exit_inv s \<longleftrightarrow>
     lifecycle_inv s \<and> (thread s = Some Exited \<and> running s \<longrightarrow> source s = [])"

text \<open>
  A schedule on which the notification of \<open>stop()\<close> comes before the worker waits, and
  the state it ends in.
\<close>

definition lost_wakeup_schedule :: "action list" where
  "lost_wakeup_schedule =
     [Call_start, Caller, Caller, Caller, Worker,
      Call_stop, Caller, Caller, Caller, Caller,
      Worker, Worker, Worker, Worker]"

definition lost_wakeup_state :: converter where
  "lost_wakeup_state =
     \<lparr>running = False, thread = Some Waiting, mutex = False, caller = Stop_join, source = [],
      reads = 1, consumed = [0x05], sink = [''5''], spawned = 1, terminated = False\<rparr>"

text \<open>Concrete runs, used to instantiate the theorems.\<close>

definition demo_source :: "byte list" where
  "demo_source = [0xFF, 0x05, 0x81]"

definition demo_schedule :: "action list" where
  "demo_schedule =
     start_call @ [Worker, Worker, Worker] @ [Worker, Worker, Worker, Worker, Worker] @
     [Spurious, Worker] @ [Worker, Worker, Worker, Worker]"

definition demo_state :: converter where
  "demo_state =
     \<lparr>running = True, thread = Some At_wait, mutex = True, caller = Idle, source = [],
      reads = 3, consumed = [0xFF, 0x05, 0x81], sink = [''5'', ''b''], spawned = 1,
      terminated = False\<rparr>"

definition started_state :: "byte list \<Rightarrow> converter" where
  "started_state src =
     \<lparr>running = True, thread = Some At_while, mutex = False, caller = Idle, source = src,
      reads = 0, consumed = [], sink = [], spawned = 1, terminated = False\<rparr>"

definition exhausted_state :: converter where
  "exhausted_state =
     \<lparr>running = True, thread = Some Exited, mutex = False, caller = Idle, source = [],
      reads = 1, consumed = [], sink = [], spawned = 1, terminated = False\<rparr>"

definition reading_state :: "byte list \<Rightarrow> converter" where
  "reading_state src =
     \<lparr>running = True, thread = Some At_read, mutex = True, caller = Idle, source = src,
      reads = 0, consumed = [], sink = [], spawned = 1, terminated = False\<rparr>"

definition paused_state :: converter where
  "paused_state =
     \<lparr>running = True, thread = Some Waiting, mutex = False, caller = Idle, source = [],
      reads = 1, consumed = [0x05], sink = [''5''], spawned = 1, terminated = False\<rparr>"

definition stopped_state :: converter where
  "stopped_state =
     \<lparr>running = False, thread = None, mutex = False, caller = Idle, source = [],
      reads = 1, consumed = [0x05], sink = [''5''], spawned = 1, terminated = False\<rparr>"

section \<open>Properties of the codec\<close>

lemma and3: "(x::int) AND 3 = x mod 4"
  using take_bit_eq_mask [of 2 x] by (simp add: take_bit_eq_mod mask_eq_exp_minus_1)

lemma and63: "(x::int) AND 63 = x mod 64"
  using take_bit_eq_mask [of 6 x] by (simp add: take_bit_eq_mod mask_eq_exp_minus_1)

lemma uint_byte_range: "0 \<le> uint (b::byte) \<and> uint b < 256"
  using uint_bounded [of b] by simp

lemma signed_byte_cases:
  "0 \<le> (u::int) \<Longrightarrow> u < 256 \<Longrightarrow>
     (u + 128) mod 256 - 128 = (if u < 128 then u else u - 256)"
proof (cases "u < 128")
  case True
  assume "0 \<le> u"
  with True show ?thesis by simp
next
  case False
  assume "u < 256"
  with False have "(u - 128) mod 256 = u - 128" by simp
  moreover have "(u + 128) mod 256 = (u - 128) mod 256"
    using mod_add_self2 [of "u - 128" 256] by (simp add: add.commute)
  ultimately show ?thesis using False by simp
qed

lemma sint_byte: "sint (b::byte) = (if uint b < 128 then uint b else uint b - 256)"
proof -
  have "sint b = (uint b + 128) mod 256 - 128"
    unfolding sint_uint signed_take_bit_eq_take_bit_shift take_bit_eq_mod by simp
  then show ?thesis using uint_byte_range [of b] by (simp only: signed_byte_cases)
qed

lemma uint_div64_range: "0 \<le> uint (b::byte) div 64 \<and> uint b div 64 < 4"
  using uint_byte_range [of b] by arith

lemma byte_type_div: "byte_type b = uint b div 64"
proof -
  have "(uint b - 256) div 64 = uint b div 64 - 4" by simp
  moreover have "(uint b div 64 - 4) mod 4 = (uint b div 64) mod 4"
    using mod_add_self2 [of "uint b div 64 - 4" 4] by simp
  ultimately show ?thesis using uint_div64_range [of b]
    by (simp add: byte_type_def and3 drop_bit_eq_div sint_byte)
qed

lemma byte_data_mod: "byte_data b = uint b mod 64"
proof -
  have "(uint b - 256) mod 64 = uint b mod 64"
    using mod_add_self2 [of "uint b - 256" 64] mod_add_self2 [of "uint b - 192" 64]
      mod_add_self2 [of "uint b - 128" 64] mod_add_self2 [of "uint b - 64" 64] by simp
  then show ?thesis by (simp add: byte_data_def and63 sint_byte)
qed

text \<open>The signedness of \<open>char\<close> does not matter for \<open>type\<close> and \<open>data\<close>.\<close>

lemma byte_type_unsigned: "drop_bit 6 (uint b) AND 0x03 = byte_type b"
  using uint_div64_range [of b] by (simp add: byte_type_div and3 drop_bit_eq_div)

lemma byte_data_unsigned: "uint b AND 0x3f = byte_data b"
  by (simp add: byte_data_mod and63)

lemma byte_data_range: "0 \<le> byte_data b \<and> byte_data b < 64"
  by (simp add: byte_data_mod)

lemma byte_type_range: "0 \<le> byte_type b \<and> byte_type b < 4"
  using uint_div64_range [of b] by (simp add: byte_type_div)

lemma byte_type_kind: "byte_type b = int (kind b)"
proof -
  have "kind b = drop_bit 6 (unat b)"
    by (simp only: kind_def unat_drop_bit_eq)
  then have "kind b = unat b div 64"
    by (simp add: drop_bit_eq_div)
  then show ?thesis
    unfolding byte_type_div uint_nat by (simp add: zdiv_int)
qed

lemma byte_data_payload: "byte_data b = int (payload b)"
  by (simp add: byte_data_unsigned [symmetric] payload_def uint_and uint_nat [symmetric])

lemma payload_less: "payload b < 64"
  using byte_data_range [of b] by (simp add: byte_data_payload)

lemma kind_less: "kind b < 4"
  using byte_type_range [of b] by (simp add: byte_type_kind)

lemma int8_cast_small: "0 \<le> i \<Longrightarrow> i < 128 \<Longrightarrow> int8_cast i = i"
  by (simp add: int8_cast_def sint_byte uint_word_of_int take_bit_eq_mod)

lemma convert_kind:
  "convert b =
    (if kind b = 0 then Some (dec_digits (payload b))
     else if kind b = 1 then Some (dec_digits (payload b))
     else if kind b = 2 then Some [char_of (of_char CHR ''a'' + int (payload b))]
     else None)"
  using payload_less [of b]
  by (simp add: convert_def Let_def byte_type_kind byte_data_payload to_string_def int8_cast_small)

lemma digit_char_value: "d < 10 \<Longrightarrow> of_char (digit_char d) = 48 + d"
  by (simp add: digit_char_def)

lemma decimal_value_dec_digits: "decimal_value (dec_digits n) = n"
proof (induction n rule: dec_digits.induct)
  case (1 n)
  show ?case
  proof (cases "n < 10")
    case True
    then show ?thesis
      by (subst dec_digits.simps) (simp add: decimal_value_def digit_char_value)
  next
    case False
    with 1 have "decimal_value (dec_digits (n div 10)) = n div 10" by simp
    with False show ?thesis
      by (subst dec_digits.simps) (simp add: decimal_value_def digit_char_value)
  qed
qed

lemma dec_digits_small:
  "n < 100 \<Longrightarrow> dec_digits n =
     (if n < 10 then [digit_char n] else [digit_char (n div 10), digit_char (n mod 10)])"
proof (cases "n < 10")
  case True
  then show ?thesis by (subst dec_digits.simps) simp
next
  case False
  assume "n < 100"
  then have "n div 10 < 10" by arith
  then have "dec_digits (n div 10) = [digit_char (n div 10)]"
    by (subst dec_digits.simps) simp
  with False show ?thesis by (subst dec_digits.simps) simp
qed

lemma alphabet_all:
  "list_all (\<lambda>p. char_of (of_char CHR ''a'' + int p) = alphabet ! p) [0..<26]"
  by code_simp

lemma alphabet_nth: "p < 26 \<Longrightarrow> char_of (of_char CHR ''a'' + int p) = alphabet ! p"
  using alphabet_all by (simp add: list_all_iff)

lemma kind_div: "kind b = unat b div 64"
proof -
  have "kind b = drop_bit 6 (unat b)"
    by (simp only: kind_def unat_drop_bit_eq)
  then show ?thesis by (simp add: drop_bit_eq_div)
qed

lemma payload_mod: "payload b = unat b mod 64"
proof -
  have "int (payload b) = int (unat b) mod 64"
    using byte_data_mod [of b] unfolding byte_data_payload uint_nat .
  also have "\<dots> = int (unat b mod 64)" by (simp add: zmod_int)
  finally show ?thesis by (simp only: of_nat_eq_iff)
qed

lemma payload_uint: "int (payload b) = uint (b AND 0x3f)"
  by (simp add: payload_def)

lemma kind_masked: "kind (b AND 0x3f) = 0"
proof -
  have "unat (b AND 0x3f) < 64" using payload_less [of b] by (simp add: payload_def)
  then show ?thesis by (simp add: kind_div)
qed

lemma payload_masked: "payload (b AND 0x3f) = payload b"
  by (simp add: payload_def and.assoc)

lemma unat_encoded: "p < 64 \<Longrightarrow> unat (word_of_nat (128 + p) :: byte) = 128 + p"
  unfolding unat_of_nat by simp

lemma kind_encoded: "p < 64 \<Longrightarrow> kind (of_nat (128 + p)) = 2"
  using unat_encoded[of p] by (simp add: kind_div del: of_nat_add)

lemma payload_encoded: "p < 64 \<Longrightarrow> payload (of_nat (128 + p)) = p"
proof -
  assume p: "p < 64"
  have "(p + 64 * 2) mod 64 = p mod 64" by (rule mod_mult_self2)
  with p have "(128 + p) mod 64 = p" by (simp add: add.commute)
  with p show ?thesis by (simp only: payload_mod unat_encoded)
qed

lemma letter_code:
  assumes "d < 64"
  shows "of_char (char_of (of_char CHR ''a'' + int d)) = of_char CHR ''a'' + d"
proof -
  have "(of_char (char_of (97 + int d)) :: int) = (97 + int d) mod 256"
    by (simp only: of_char_of)
  with assms have "(of_char (char_of (97 + int d)) :: int) = int (97 + d)" by simp
  then have "int (of_char (char_of (97 + int d))) = int (97 + d)"
    by (simp only: of_nat_of_char)
  then have "of_char (char_of (97 + int d)) = 97 + d"
    by (simp only: of_nat_eq_iff)
  then show ?thesis by simp
qed

lemma alphabet_nth_num: "p \<le> 25 \<Longrightarrow> char_of (97 + int p) = alphabet ! p"
  using alphabet_nth [of p] by simp

section \<open>The claims about the codec\<close>

text \<open>
  Claim C2. For every byte \<open>b\<close> whose kind bits are 00, the switch produces the string
  that \<open>std::to_string\<close> gives for the unsigned integer \<open>b & 0x3F\<close>, and that string read
  back as a decimal numeral is \<open>b & 0x3F\<close>. The byte \<open>0b00000101\<close> gives \<open>"5"\<close>.
\<close>

theorem unsigned_kind_renders_decimal:
  "(kind b = 0 \<longrightarrow>
      convert b = Some (to_string (uint (b AND 0x3f))) \<and>
      decimal_value (to_string (uint (b AND 0x3f))) = unat (b AND 0x3f)) \<and>
   convert 0x05 = Some ''5''"
proof -
  have "convert 0x05 = Some ''5''" by code_simp
  moreover have "to_string (uint (b AND 0x3f)) = dec_digits (payload b)"
    by (simp add: to_string_def payload_def)
  ultimately show ?thesis
    by (simp add: convert_kind decimal_value_dec_digits payload_def)
qed

theorem unsigned_kind_renders_decimal_witness:
  "kind 0x2A = 0 \<and> convert 0x2A = Some ''42'' \<and> decimal_value ''42'' = 42"
proof -
  have k: "kind 0x2A = 0" by code_simp
  have s: "to_string (uint ((0x2A :: byte) AND 0x3f)) = ''42''" by code_simp
  have u: "unat ((0x2A :: byte) AND 0x3f) = 42" by simp
  from unsigned_kind_renders_decimal [of "0x2A"] k show ?thesis
    unfolding s u by simp
qed

text \<open>
  Claim C3. For every byte \<open>b\<close> whose kind bits are 01, the payload cast to \<open>int8_t\<close> is
  the payload itself, so not negative, and the string produced is the one produced for
  any byte \<open>b'\<close> of kind 00 with the same payload.
\<close>

theorem signed_kind_same_as_unsigned:
  "kind b = 1 \<Longrightarrow> kind b' = 0 \<Longrightarrow> payload b' = payload b \<Longrightarrow>
     0 \<le> int8_cast (byte_data b) \<and> int8_cast (byte_data b) = int (payload b) \<and>
     convert b = Some (to_string (int8_cast (byte_data b))) \<and>
     convert b' = Some (to_string (int (payload b))) \<and>
     convert b = convert b'"
  using payload_less [of b]
  by (simp add: convert_kind byte_data_payload int8_cast_small to_string_def)

theorem signed_kind_same_as_unsigned_witness:
  "kind 0x7F = 1 \<and> kind 0x3F = 0 \<and> payload 0x3F = payload 0x7F \<and>
   convert 0x7F = Some ''63'' \<and> convert 0x3F = Some ''63''"
proof -
  have k: "kind 0x7F = 1" "kind 0x3F = 0" "payload 0x3F = payload 0x7F" by code_simp+
  have c: "convert 0x3F = Some ''63''" by code_simp
  from signed_kind_same_as_unsigned [OF k] k c show ?thesis by simp
qed

text \<open>
  Claim C4. For every byte \<open>b\<close> whose kind bits are 10, the string produced is the single
  character whose code is \<open>'a' + payload\<close>. For a payload of at most 25 it is the letter
  of the alphabet at that index, so the byte \<open>0x80 + p\<close> with \<open>p \<le> 25\<close> gives the
  \<open>p\<close>-th letter and \<open>0b10000001\<close> gives \<open>"b"\<close>; for a payload above 25 the code of the
  character is greater than that of \<open>'z'\<close>.
\<close>

theorem letter_kind_renders_letter:
  "(kind b = 2 \<longrightarrow>
      (\<exists>c. convert b = Some [c] \<and> of_char c = of_char CHR ''a'' + payload b \<and>
           (payload b \<le> 25 \<longrightarrow> c = alphabet ! payload b) \<and>
           (25 < payload b \<longrightarrow> of_char CHR ''z'' < (of_char c :: nat)))) \<and>
   (p \<le> 25 \<longrightarrow> convert (of_nat (128 + p)) = Some [alphabet ! p]) \<and>
   convert 0x81 = Some ''b''"
proof -
  have ex: "convert 0x81 = Some ''b''" by code_simp
  have val: "of_char (char_of (of_char CHR ''a'' + int (payload b))) = of_char CHR ''a'' + payload b"
    using payload_less [of b] by (rule letter_code)
  have enc: "p \<le> 25 \<Longrightarrow> convert (of_nat (128 + p)) = Some [alphabet ! p]"
    by (simp add: convert_kind kind_encoded payload_encoded alphabet_nth_num del: of_nat_add)
  have past: "25 < payload b \<Longrightarrow> of_char CHR ''z'' < of_char CHR ''a'' + payload b"
    by simp
  show ?thesis
  proof (intro conjI impI)
    assume "kind b = 2"
    then have c: "convert b = Some [char_of (of_char CHR ''a'' + int (payload b))]"
      by (simp add: convert_kind)
    show "\<exists>c. convert b = Some [c] \<and> of_char c = of_char CHR ''a'' + payload b \<and>
           (payload b \<le> 25 \<longrightarrow> c = alphabet ! payload b) \<and>
           (25 < payload b \<longrightarrow> of_char CHR ''z'' < (of_char c :: nat))"
      unfolding c using val past by (auto simp: alphabet_nth_num)
  next
    assume "p \<le> 25" then show "convert (word_of_nat (128 + p)) = Some [alphabet ! p]" by (rule enc)
  next
    show "convert 0x81 = Some ''b''" by (rule ex)
  qed
qed

theorem letter_kind_renders_letter_witness:
  "kind 0x83 = 2 \<and> payload 0x83 \<le> 25 \<and> convert 0x83 = Some ''d'' \<and>
   kind 0xBF = 2 \<and> 25 < payload 0xBF \<and> convert 0xBF = Some [CHR 0xA0] \<and>
   of_char CHR ''z'' < (of_char (CHR 0xA0) :: nat) \<and>
   (3::nat) \<le> 25 \<and> convert (of_nat (128 + 3)) = Some [alphabet ! 3]"
proof -
  have k: "kind 0x83 = 2" "payload 0x83 = 3" "kind 0xBF = 2" "payload 0xBF = 63" by code_simp+
  have a: "alphabet ! 3 = CHR ''d''" by code_simp
  have c: "convert 0xBF = Some [CHR 0xA0]" by code_simp
  from letter_kind_renders_letter [of "0x83" 3] letter_kind_renders_letter [of "0xBF" 3] k a c
  show ?thesis by auto
qed

section \<open>Properties of the converter\<close>

lemma exec_append:
  "exec (xs @ ys) s = (case exec xs s of None \<Rightarrow> None | Some t \<Rightarrow> exec ys t)"
  by (induction xs arbitrary: s) (auto split: option.splits)

lemma convert_rendering:
  "convert b = (if kind b = 3 then None else Some (rendering b))"
  using kind_less [of b] payload_less [of b]
  by (auto simp: convert_kind rendering_def to_string_def)

lemma map_filter_convert: "List.map_filter convert bs = expected_output bs"
  by (induction bs) (simp_all add: List.map_filter_simps expected_output_def convert_rendering)

lemma run_output_inv:
  assumes "run pc s = Some s'" and "thread s = Some pc" and "output_inv src s"
  shows "output_inv src s'"
  using assms
  by (cases pc)
    (auto simp: output_inv_def pending_def List.map_filter_def
          split: if_splits list.splits option.splits)

lemma start_output_inv:
  assumes "start pc s = Some s'" and "output_inv src s" 
  shows "output_inv src s'"
  using assms
  by (cases pc) (auto simp: output_inv_def pending_def split: if_splits option.splits)

lemma stop_output_inv:
  assumes "stop pc s = Some s'" and "output_inv src s" 
  shows "output_inv src s'"
  using assms
  by (cases pc) (auto simp: output_inv_def pending_def notify_all_def split: if_splits option.splits worker_pc.splits)

lemma step_output_inv:
  assumes "step a s = Some s'" and "output_inv src s"
  shows "output_inv src s'"
proof (cases a)
  case Call_start
  with assms show ?thesis by (auto simp: output_inv_def pending_def split: if_splits)
next
  case Call_stop
  with assms show ?thesis by (auto simp: output_inv_def pending_def split: if_splits)
next
  case Caller
  with assms show ?thesis
    by (auto split: if_splits intro: start_output_inv stop_output_inv)
next
  case Worker
  with assms show ?thesis
    by (auto split: if_splits option.splits intro: run_output_inv)
next
  case Spurious
  with assms show ?thesis by (auto simp: output_inv_def pending_def split: if_splits)
qed

lemma exec_output_inv:
  "exec sched s = Some s' \<Longrightarrow> output_inv src s \<Longrightarrow> output_inv src s'"
  by (induction sched arbitrary: s) (auto split: option.splits intro: step_output_inv)

lemma output_inv_Converter: "output_inv src (Converter src)"
  by (simp add: output_inv_def Converter_def pending_def List.map_filter_simps)

lemma run_frame:
  assumes "run pc s = Some s'" and "thread s = Some pc"
  shows "running s' = running s \<and> caller s' = caller s \<and> spawned s' = spawned s \<and>
         terminated s' = terminated s \<and> thread s' \<noteq> None"
  using assms by (cases pc) (auto split: if_splits list.splits option.splits)

lemma worker_frame:
  assumes "step a s = Some s'" and "a = Worker \<or> a = Spurious"
  shows "running s' = running s \<and> caller s' = caller s \<and> spawned s' = spawned s \<and>
         terminated s' = terminated s \<and> thread s \<noteq> None \<and> thread s' \<noteq> None"
  using assms by (auto split: if_splits option.splits dest: run_frame)

lemma exec_worker_frame:
  "set ws \<subseteq> {Worker, Spurious} \<Longrightarrow> exec ws s = Some s' \<Longrightarrow>
     running s' = running s \<and> caller s' = caller s \<and> spawned s' = spawned s \<and>
     terminated s' = terminated s \<and> (thread s' \<noteq> None \<longleftrightarrow> thread s \<noteq> None)"
proof (induction ws arbitrary: s)
  case Nil
  then show ?case by simp
next
  case (Cons a ws)
  from Cons.prems obtain t where t: "step a s = Some t" "exec ws t = Some s'"
    by (auto split: option.splits)
  from Cons.prems have a: "a = Worker \<or> a = Spurious" by auto
  from Cons.prems have "set ws \<subseteq> {Worker, Spurious}" by auto
  from Cons.IH [OF this t(2)] worker_frame [OF t(1) a] show ?case by simp
qed

lemma start_lifecycle_inv:
  assumes "start pc s = Some s'" and "caller s = pc" and "lifecycle_inv s"
  shows "lifecycle_inv s'"
  using assms by (cases pc) (auto simp: lifecycle_inv_def split: if_splits option.splits)

lemma stop_lifecycle_inv:
  assumes "stop pc s = Some s'" and "caller s = pc" and "lifecycle_inv s"
  shows "lifecycle_inv s'"
  using assms
  by (cases pc) (auto simp: lifecycle_inv_def notify_all_def split: if_splits option.splits)

lemma step_lifecycle_inv:
  assumes "step a s = Some s'" and "lifecycle_inv s"
  shows "lifecycle_inv s'"
proof (cases a)
  case Call_start
  with assms show ?thesis by (auto simp: lifecycle_inv_def split: if_splits)
next
  case Call_stop
  with assms show ?thesis by (auto simp: lifecycle_inv_def split: if_splits)
next
  case Caller
  with assms show ?thesis
    by (auto split: if_splits intro: start_lifecycle_inv stop_lifecycle_inv)
next
  case Worker
  with worker_frame [OF assms(1)] assms(2) show ?thesis by (simp add: lifecycle_inv_def)
next
  case Spurious
  with worker_frame [OF assms(1)] assms(2) show ?thesis by (simp add: lifecycle_inv_def)
qed

lemma exec_lifecycle_inv:
  "exec sched s = Some s' \<Longrightarrow> lifecycle_inv s \<Longrightarrow> lifecycle_inv s'"
  by (induction sched arbitrary: s) (auto split: option.splits intro: step_lifecycle_inv)

lemma lifecycle_inv_Converter: "lifecycle_inv (Converter src)"
  by (simp add: lifecycle_inv_def Converter_def)

lemma reachable_lifecycle_inv: "exec sched (Converter src) = Some s \<Longrightarrow> lifecycle_inv s"
  using exec_lifecycle_inv lifecycle_inv_Converter by blast

lemma run_caller_update:
  "run pc (s\<lparr>caller := c\<rparr>) = map_option (\<lambda>t. t\<lparr>caller := c\<rparr>) (run pc s)"
  by (cases pc) (auto split: list.splits option.splits)

lemma step_caller_update:
  "a = Worker \<or> a = Spurious \<Longrightarrow>
     step a (s\<lparr>caller := c\<rparr>) = map_option (\<lambda>t. t\<lparr>caller := c\<rparr>) (step a s)"
  by (auto simp: run_caller_update split: option.splits)

lemma exec_caller_update:
  "set ws \<subseteq> {Worker, Spurious} \<Longrightarrow>
     exec ws (s\<lparr>caller := c\<rparr>) = map_option (\<lambda>t. t\<lparr>caller := c\<rparr>) (exec ws s)"
proof (induction ws arbitrary: s)
  case Nil
  then show ?case by simp
next
  case (Cons a ws)
  then have a: "a = Worker \<or> a = Spurious" and ws: "set ws \<subseteq> {Worker, Spurious}" by auto
  show ?case
    by (cases "step a s") (simp_all add: step_caller_update [OF a] Cons.IH [OF ws])
qed

lemma start_noop:
  assumes "caller s = Idle" and "\<not> terminated s" and "running s"
    and "set ws \<subseteq> {Worker, Spurious}" and "exec ws s = Some t"
  shows "exec (Call_start # ws @ [Caller]) s = Some t"
proof -
  from exec_worker_frame [OF assms(4,5)] assms(1-3)
  have t: "caller t = Idle" "\<not> terminated t" "running t" by simp_all
  have "exec ws (s\<lparr>caller := Start_test\<rparr>) = Some (t\<lparr>caller := Start_test\<rparr>)"
    by (simp add: exec_caller_update [OF assms(4)] assms(5))
  moreover have "step Caller (t\<lparr>caller := Start_test\<rparr>) = Some t"
    using t by simp
  ultimately show ?thesis using assms(1,2) by (simp add: exec_append)
qed

lemma stop_noop:
  assumes "caller s = Idle" and "\<not> terminated s" and "\<not> running s"
  shows "exec [Call_stop, Caller] s = Some s"
  using assms by simp

lemma start_start_inv:
  assumes "start pc s = Some s'" and "caller s = pc" and "start_inv r0 n0 s"
  shows "start_inv r0 n0 s'"
  using assms start_lifecycle_inv [OF assms(1,2)]
  by (cases pc) (auto simp: start_inv_def lifecycle_inv_def split: if_splits option.splits)

lemma step_start_inv:
  assumes "step a s = Some s'" and "a = Caller \<or> a = Worker \<or> a = Spurious"
    and "start_inv r0 n0 s"
  shows "start_inv r0 n0 s'"
proof (cases "a = Caller")
  case True
  from assms(3) have "in_start (caller s) \<or> caller s = Idle"
    by (cases "caller s") (simp_all add: start_inv_def)
  with True assms show ?thesis
    by (auto split: if_splits intro: start_start_inv)
next
  case False
  with assms(2) have a: "a = Worker \<or> a = Spurious" by simp
  from worker_frame [OF assms(1) a] step_lifecycle_inv [OF assms(1)] assms(3)
  show ?thesis by (simp add: start_inv_def)
qed

lemma exec_start_inv:
  "set r \<subseteq> {Caller, Worker, Spurious} \<Longrightarrow> exec r s = Some s' \<Longrightarrow>
     start_inv r0 n0 s \<Longrightarrow> start_inv r0 n0 s'"
proof (induction r arbitrary: s)
  case Nil
  then show ?case by simp
next
  case (Cons a r)
  from Cons.prems obtain t where t: "step a s = Some t" "exec r t = Some s'"
    by (auto split: option.splits)
  from Cons.prems have a: "a = Caller \<or> a = Worker \<or> a = Spurious" by auto
  from Cons.prems have "set r \<subseteq> {Caller, Worker, Spurious}" by auto
  from Cons.IH [OF this t(2) step_start_inv [OF t(1) a Cons.prems(3)]] show ?case .
qed

lemma stop_stop_inv:
  assumes "stop pc s = Some s'" and "caller s = pc" and "stop_inv s"
  shows "stop_inv s'"
  using assms stop_lifecycle_inv [OF assms(1,2)]
  by (cases pc) (auto simp: stop_inv_def lifecycle_inv_def split: if_splits)

lemma step_stop_inv:
  assumes "step a s = Some s'" and "a = Caller \<or> a = Worker \<or> a = Spurious"
    and "stop_inv s"
  shows "stop_inv s'"
proof (cases "a = Caller")
  case True
  from assms(3) have "\<not> in_start (caller s)"
    by (cases "caller s") (simp_all add: stop_inv_def)
  with True assms show ?thesis
    by (auto split: if_splits intro: stop_stop_inv)
next
  case False
  with assms(2) have a: "a = Worker \<or> a = Spurious" by simp
  from worker_frame [OF assms(1) a] step_lifecycle_inv [OF assms(1)] assms(3)
  show ?thesis by (simp add: stop_inv_def)
qed

lemma exec_stop_inv:
  "set r \<subseteq> {Caller, Worker, Spurious} \<Longrightarrow> exec r s = Some s' \<Longrightarrow>
     stop_inv s \<Longrightarrow> stop_inv s'"
proof (induction r arbitrary: s)
  case Nil
  then show ?case by simp
next
  case (Cons a r)
  from Cons.prems obtain t where t: "step a s = Some t" "exec r t = Some s'"
    by (auto split: option.splits)
  from Cons.prems have a: "a = Caller \<or> a = Worker \<or> a = Spurious" by auto
  from Cons.prems have "set r \<subseteq> {Caller, Worker, Spurious}" by auto
  from Cons.IH [OF this t(2) step_stop_inv [OF t(1) a Cons.prems(3)]] show ?case .
qed

lemma first_start_returns:
  assumes "lifecycle_inv s" and "caller s = Idle"
    and "set r \<subseteq> {Caller, Worker, Spurious}" and "exec (Call_start # r) s = Some s1"
    and "caller s1 = Idle"
  shows "running s1 \<and> \<not> terminated s1 \<and> thread s1 \<noteq> None \<and>
         spawned s1 = (if running s then spawned s else Suc (spawned s))"
proof -
  from assms(4) have r: "exec r (s\<lparr>caller := Start_test\<rparr>) = Some s1"
    by (auto split: if_splits)
  have "start_inv (running s) (spawned s) (s\<lparr>caller := Start_test\<rparr>)"
    using assms(1,2) by (simp add: start_inv_def lifecycle_inv_def)
  from exec_start_inv [OF assms(3) r this] assms(5)
  show ?thesis by (auto simp: start_inv_def lifecycle_inv_def)
qed

lemma first_stop_returns:
  assumes "lifecycle_inv s" and "caller s = Idle"
    and "set r \<subseteq> {Caller, Worker, Spurious}" and "exec (Call_stop # r) s = Some s1"
    and "caller s1 = Idle"
  shows "\<not> running s1 \<and> \<not> terminated s1 \<and> thread s1 = None"
proof -
  from assms(4) have r: "exec r (s\<lparr>caller := Stop_test\<rparr>) = Some s1"
    by (auto split: if_splits)
  have "stop_inv (s\<lparr>caller := Stop_test\<rparr>)"
    using assms(1,2) by (simp add: stop_inv_def lifecycle_inv_def)
  from exec_stop_inv [OF assms(3) r this] assms(5)
  show ?thesis by (auto simp: stop_inv_def lifecycle_inv_def)
qed

lemma run_exit_inv:
  assumes "run pc s = Some s'" and "thread s = Some pc" and "exit_inv s"
  shows "exit_inv s'"
proof -
  have "step Worker s = Some s'"
    using assms by (simp add: exit_inv_def lifecycle_inv_def)
  from step_lifecycle_inv [OF this] assms(3)
  have "lifecycle_inv s'" by (simp add: exit_inv_def)
  moreover have "thread s' = Some Exited \<and> running s' \<longrightarrow> source s' = []"
    using assms(1,2)
    by (cases pc) (auto split: if_splits list.splits option.splits)
  ultimately show ?thesis by (simp add: exit_inv_def)
qed

lemma start_exit_inv:
  assumes "start pc s = Some s'" and "caller s = pc" and "exit_inv s"
  shows "exit_inv s'"
  using assms start_lifecycle_inv [OF assms(1,2)]
  by (cases pc) (auto simp: exit_inv_def lifecycle_inv_def split: if_splits option.splits)

lemma stop_exit_inv:
  assumes "stop pc s = Some s'" and "caller s = pc" and "exit_inv s"
  shows "exit_inv s'"
  using assms stop_lifecycle_inv [OF assms(1,2)]
  by (cases pc) (auto simp: exit_inv_def notify_all_def split: if_splits)

lemma step_exit_inv:
  assumes "step a s = Some s'" and "exit_inv s"
  shows "exit_inv s'"
proof (cases a)
  case Call_start
  with assms show ?thesis
    by (auto simp: exit_inv_def lifecycle_inv_def split: if_splits)
next
  case Call_stop
  with assms show ?thesis
    by (auto simp: exit_inv_def lifecycle_inv_def split: if_splits)
next
  case Caller
  with assms show ?thesis
    by (auto split: if_splits intro: start_exit_inv stop_exit_inv)
next
  case Worker
  with assms show ?thesis
    by (auto split: if_splits option.splits intro: run_exit_inv)
next
  case Spurious
  with assms show ?thesis
    by (auto simp: exit_inv_def lifecycle_inv_def split: if_splits)
qed

lemma exec_exit_inv:
  "exec sched s = Some s' \<Longrightarrow> exit_inv s \<Longrightarrow> exit_inv s'"
  by (induction sched arbitrary: s) (auto split: option.splits intro: step_exit_inv)

lemma exit_inv_Converter: "exit_inv (Converter src)"
  by (simp add: exit_inv_def lifecycle_inv_def Converter_def)

lemma exited_between_calls:
  assumes "exit_inv s" and "thread s = Some Exited" and "caller s = Idle"
  shows "running s \<and> source s = [] \<and> \<not> terminated s"
  using assms by (auto simp: exit_inv_def lifecycle_inv_def)

lemma caller_update_same: "caller s = c \<Longrightarrow> s\<lparr>caller := c\<rparr> = s"
  by (cases s) simp

lemma start_noop_repeated:
  assumes "caller s = Idle" and "\<not> terminated s" and "running s"
  shows "exec (concat (replicate n [Call_start, Caller])) s = Some s"
  using assms by (induction n) (simp_all add: caller_update_same)

lemma stop_exited_worker:
  assumes "thread s = Some Exited" and "running s" and "caller s = Idle" and "\<not> terminated s"
  shows "exec stop_call s = Some (s\<lparr>running := False, thread := None\<rparr>)"
  using assms by (simp add: stop_call_def notify_all_def)

lemma start_stopped:
  assumes "thread s = None" and "\<not> running s" and "caller s = Idle" and "\<not> terminated s"
  shows "exec start_call s =
           Some (s\<lparr>running := True, thread := Some At_while, spawned := Suc (spawned s)\<rparr>)"
  using assms by (simp add: start_call_def)

lemma convert_reserved: "kind b = 3 \<Longrightarrow> convert b = None"
  by (simp add: convert_rendering)

lemma reserved_iteration:
  assumes "\<not> terminated s" and "running s" and "thread s = Some At_while" and "\<not> mutex s"
    and "source s = b # rest" and "kind b = 3"
  shows "exec [Worker, Worker, Worker] s =
           Some (s\<lparr>reads := Suc (reads s), source := rest, consumed := consumed s @ [b],
                   mutex := False, thread := Some At_while\<rparr>)"
  using assms by (simp add: convert_reserved)

lemma reserved_run:
  "\<forall>b \<in> set bs. kind b = 3 \<Longrightarrow> \<not> terminated s \<Longrightarrow> running s \<Longrightarrow>
   thread s = Some At_while \<Longrightarrow> \<not> mutex s \<Longrightarrow> source s = bs @ rest \<Longrightarrow>
     exec (concat (replicate (length bs) [Worker, Worker, Worker])) s =
       Some (s\<lparr>reads := reads s + length bs, source := rest, consumed := consumed s @ bs,
               mutex := False, thread := Some At_while\<rparr>)"
proof (induction bs arbitrary: s)
  case Nil
  then show ?case by (cases s) simp
next
  case (Cons b bs)
  let ?t = "s\<lparr>reads := Suc (reads s), source := bs @ rest, consumed := consumed s @ [b],
                mutex := False, thread := Some At_while\<rparr>"
  from Cons.prems have "exec [Worker, Worker, Worker] s = Some ?t"
    by (intro reserved_iteration) simp_all
  moreover from Cons.prems have
    "exec (concat (replicate (length bs) [Worker, Worker, Worker])) ?t =
       Some (?t\<lparr>reads := reads ?t + length bs, source := rest, consumed := consumed ?t @ bs,
               mutex := False, thread := Some At_while\<rparr>)"
    by (intro Cons.IH) simp_all
  moreover have "concat (replicate (length (b # bs)) [Worker, Worker, Worker]) =
      [Worker, Worker, Worker] @ concat (replicate (length bs) [Worker, Worker, Worker])"
    by simp
  ultimately show ?case
    by (simp only: exec_append option.case) simp
qed

lemma exited_worker_is_stuck:
  "thread s = Some Exited \<Longrightarrow> ws \<noteq> [] \<Longrightarrow> set ws \<subseteq> {Worker, Spurious} \<Longrightarrow>
     exec ws s = None"
  by (cases ws) auto

lemma stop_wakes_waiting_worker:
  assumes "thread s = Some Waiting" and "running s" and "caller s = Idle"
    and "\<not> terminated s" and "\<not> mutex s"
  shows "exec [Call_stop, Caller, Caller, Caller, Worker, Worker, Caller, Caller] s =
           Some (s\<lparr>running := False, thread := None\<rparr>)"
  using assms by (simp add: notify_all_def)

lemma join_returns_after_exit:
  assumes "caller s = Stop_join" and "step Caller s = Some s'"
  shows "thread s = Some Exited \<and> thread s' = None \<and> caller s' = Idle"
  using assms by (auto split: if_splits)

lemma convert_examples:
  "convert 0x05 = Some ''5''" "convert 0x81 = Some ''b''"
  "convert 0xFF = None" "convert 0xC0 = None"
  by code_simp+

lemma kind_examples: "kind 0xFF = 3" "kind 0xC0 = 3"
  by code_simp+

lemma exec_demo: "exec demo_schedule (Converter demo_source) = Some demo_state"
  by (simp add: demo_schedule_def demo_source_def demo_state_def start_call_def Converter_def
      convert_examples)

lemma exec_started: "exec start_call (Converter src) = Some (started_state src)"
  by (simp add: start_call_def Converter_def started_state_def)

lemma exec_exhausted:
  "exec (start_call @ [Worker, Worker, Worker]) (Converter []) = Some exhausted_state"
  by (simp add: start_call_def Converter_def exhausted_state_def)

lemma reading_state_sel:
  "running (reading_state src)" "thread (reading_state src) = Some At_read"
  "source (reading_state src) = src" "reads (reading_state src) = 0"
  "consumed (reading_state src) = []" "\<not> terminated (reading_state src)"
  by (simp_all add: reading_state_def)

lemma started_state_sel:
  "running (started_state src)" "thread (started_state src) = Some At_while"
  "source (started_state src) = src" "reads (started_state src) = 0"
  "consumed (started_state src) = []" "\<not> terminated (started_state src)"
  "\<not> mutex (started_state src)" "caller (started_state src) = Idle"
  "spawned (started_state src) = 1"
  by (simp_all add: started_state_def)

lemma exhausted_state_sel:
  "running exhausted_state" "thread exhausted_state = Some Exited"
  "sink exhausted_state = []" "consumed exhausted_state = []"
  "\<not> terminated exhausted_state" "caller exhausted_state = Idle"
  "spawned exhausted_state = 1"
  by (simp_all add: exhausted_state_def)

lemma exec_started_worker:
  "exec [Worker] (started_state src) = Some ((started_state src)\<lparr>thread := Some At_lock\<rparr>)"
  by (simp add: started_state_def)

lemma exec_first_start:
  "exec (Call_start # [Caller, Caller, Caller]) (Converter src) = Some (started_state src)"
  using exec_started [of src] by (simp only: start_call_def)

lemma Converter_sel:
  "caller (Converter src) = Idle" "\<not> running (Converter src)" "spawned (Converter src) = 0"
  by (simp_all add: Converter_def)

lemma exec_paused:
  "exec (start_call @ [Worker, Worker, Worker, Worker, Worker]) (Converter [0x05]) =
     Some paused_state"
  by (simp add: start_call_def Converter_def paused_state_def convert_examples)

lemma exec_stopped:
  "exec (Call_stop # [Caller, Caller, Caller, Worker, Worker, Caller, Caller]) paused_state =
     Some stopped_state"
  by (simp add: paused_state_def stopped_state_def notify_all_def)

lemma paused_stopped_sel:
  "caller paused_state = Idle" "caller stopped_state = Idle" "\<not> running stopped_state"
  "thread stopped_state = None" "\<not> terminated stopped_state"
  by (simp_all add: paused_state_def stopped_state_def)

section \<open>The claims about the converter\<close>

text \<open>
  Claim C1. In every state the converter reaches from its construction over a source
  stream \<open>src\<close>, on every schedule: the bytes delivered so far are a prefix of \<open>src\<close>,
  and the strings passed to the sink, followed by the string the worker has built and
  is about to pass, are exactly the renderings, in order, of the delivered bytes that
  are not reserved (kind 00 as unsigned decimal, kind 01 as signed decimal, kind 10 as
  the character \<open>'a' + payload\<close>). When no write is pending the sink holds exactly
  these renderings.
\<close>

theorem sink_is_rendering_of_delivered_bytes:
  "exec sched (Converter src) = Some s \<Longrightarrow>
     sink s @ pending s = expected_output (consumed s) \<and>
     consumed s @ source s = src \<and>
     (pending s = [] \<longrightarrow> sink s = expected_output (consumed s))"
  using exec_output_inv [OF _ output_inv_Converter, of sched src s]
  by (auto simp: output_inv_def map_filter_convert)

theorem sink_is_rendering_of_delivered_bytes_witness:
  "exec demo_schedule (Converter demo_source) = Some demo_state \<and>
   consumed demo_state = [0xFF, 0x05, 0x81] \<and> pending demo_state = [] \<and>
   sink demo_state = [''5'', ''b''] \<and>
   expected_output [0xFF, 0x05, 0x81] = [''5'', ''b'']"
  using sink_is_rendering_of_delivered_bytes [OF exec_demo] exec_demo
  by (simp add: demo_state_def pending_def)

text \<open>
  Claim C5. When the worker reads a byte of kind 11 it writes nothing to the sink, has
  no string pending, releases the mutex and is back at the loop test, not at the wait.
  While \<open>running_\<close> is set, its next two steps take it to the next read. A run of
  reserved bytes is consumed by worker steps alone, three per byte, with no wakeup in
  between. The byte \<open>0b11111111\<close> is of kind 11.
\<close>

theorem reserved_byte_is_skipped_without_pause:
  "(\<not> terminated s \<and> thread s = Some At_read \<and> source s = b # rest \<and> kind b = 3 \<longrightarrow>
      step Worker s =
        Some (s\<lparr>reads := Suc (reads s), source := rest, consumed := consumed s @ [b],
                mutex := False, thread := Some At_while\<rparr>) \<and>
      (\<exists>s'. step Worker s = Some s' \<and> sink s' = sink s \<and> pending s' = [] \<and>
            thread s' = Some At_while) \<and>
      (running s \<longrightarrow>
         exec [Worker, Worker, Worker] s =
           Some (s\<lparr>reads := Suc (reads s), source := rest, consumed := consumed s @ [b],
                   mutex := True, thread := Some At_read\<rparr>))) \<and>
   ((\<forall>b \<in> set bs. kind b = 3) \<and> \<not> terminated t \<and> running t \<and>
    thread t = Some At_while \<and> \<not> mutex t \<and> source t = bs @ rest' \<longrightarrow>
      exec (concat (replicate (length bs) [Worker, Worker, Worker])) t =
        Some (t\<lparr>reads := reads t + length bs, source := rest', consumed := consumed t @ bs,
                mutex := False, thread := Some At_while\<rparr>)) \<and>
   kind 0xFF = 3"
proof (intro conjI impI)
  assume a: "\<not> terminated s \<and> thread s = Some At_read \<and> source s = b # rest \<and> kind b = 3"
  then show w: "step Worker s =
        Some (s\<lparr>reads := Suc (reads s), source := rest, consumed := consumed s @ [b],
                mutex := False, thread := Some At_while\<rparr>)"
    by (simp add: convert_reserved)
  then show "\<exists>s'. step Worker s = Some s' \<and> sink s' = sink s \<and> pending s' = [] \<and>
            thread s' = Some At_while"
    by (simp add: pending_def)
  assume "running s"
  with a show "exec [Worker, Worker, Worker] s =
           Some (s\<lparr>reads := Suc (reads s), source := rest, consumed := consumed s @ [b],
                   mutex := True, thread := Some At_read\<rparr>)"
    by (simp add: convert_reserved)
next
  assume "(\<forall>b \<in> set bs. kind b = 3) \<and> \<not> terminated t \<and> running t \<and>
    thread t = Some At_while \<and> \<not> mutex t \<and> source t = bs @ rest'"
  then show "exec (concat (replicate (length bs) [Worker, Worker, Worker])) t =
        Some (t\<lparr>reads := reads t + length bs, source := rest', consumed := consumed t @ bs,
                mutex := False, thread := Some At_while\<rparr>)"
    by (intro reserved_run) blast+
next
  show "kind 0xFF = 3" by code_simp
qed

theorem reserved_byte_is_skipped_without_pause_witness:
  "kind 0xFF = 3 \<and> kind 0xC0 = 3 \<and>
   thread (reading_state [0xFF, 0x05]) = Some At_read \<and>
   source (reading_state [0xFF, 0x05]) = [0xFF, 0x05] \<and>
   running (reading_state [0xFF, 0x05]) \<and>
   step Worker (reading_state [0xFF, 0x05]) =
     Some ((reading_state [0xFF, 0x05])\<lparr>reads := 1, source := [0x05], consumed := [0xFF],
             mutex := False, thread := Some At_while\<rparr>) \<and>
   exec [Worker, Worker, Worker] (reading_state [0xFF, 0x05]) =
     Some ((reading_state [0xFF, 0x05])\<lparr>reads := 1, source := [0x05], consumed := [0xFF],
             mutex := True, thread := Some At_read\<rparr>) \<and>
   exec (concat (replicate (length [0xFF, 0xC0 :: byte]) [Worker, Worker, Worker]))
       (started_state [0xFF, 0xC0, 0x05]) =
     Some ((started_state [0xFF, 0xC0, 0x05])\<lparr>reads := 2, source := [0x05],
             consumed := [0xFF, 0xC0], mutex := False, thread := Some At_while\<rparr>)"
  using reserved_byte_is_skipped_without_pause
    [of "reading_state [0xFF, 0x05]" "0xFF" "[0x05]" "[0xFF, 0xC0]"
      "started_state [0xFF, 0xC0, 0x05]" "[0x05]"]
  by (simp add: kind_examples reading_state_sel started_state_sel del: step.simps exec.simps)

text \<open>
  Claim C6. When \<open>read\<close> reports the end of the stream the worker leaves the loop: it
  writes nothing, releases the mutex and has exited, and from then on it cannot make
  any step, so it does not read again. When the source is empty from the start, the
  sink has received nothing in every state the converter reaches.
\<close>

theorem end_of_stream_exits_cleanly:
  "(\<not> terminated s \<and> thread s = Some At_read \<and> source s = [] \<longrightarrow>
      step Worker s =
        Some (s\<lparr>reads := Suc (reads s), mutex := False, thread := Some Exited\<rparr>) \<and>
      (ws \<noteq> [] \<and> set ws \<subseteq> {Worker, Spurious} \<longrightarrow>
         exec ws (s\<lparr>reads := Suc (reads s), mutex := False, thread := Some Exited\<rparr>) = None)) \<and>
   (exec sched (Converter []) = Some s' \<longrightarrow> sink s' = [] \<and> consumed s' = [])"
proof (intro conjI impI)
  assume "\<not> terminated s \<and> thread s = Some At_read \<and> source s = []"
  then show "step Worker s =
        Some (s\<lparr>reads := Suc (reads s), mutex := False, thread := Some Exited\<rparr>)"
    by simp
next
  assume "ws \<noteq> [] \<and> set ws \<subseteq> {Worker, Spurious}"
  then show "exec ws (s\<lparr>reads := Suc (reads s), mutex := False, thread := Some Exited\<rparr>) = None"
    by (intro exited_worker_is_stuck) simp_all
next
  assume "exec sched (Converter []) = Some s'"
  from exec_output_inv [OF this output_inv_Converter]
  have "sink s' @ pending s' = List.map_filter convert (consumed s')" and "consumed s' = []"
    by (simp_all add: output_inv_def)
  then show "sink s' = []" "consumed s' = []"
    by (simp_all add: List.map_filter_def)
qed

theorem end_of_stream_exits_cleanly_witness:
  "thread (reading_state []) = Some At_read \<and> source (reading_state []) = [] \<and>
   step Worker (reading_state []) =
     Some ((reading_state [])\<lparr>reads := 1, mutex := False, thread := Some Exited\<rparr>) \<and>
   exec [Worker] ((reading_state [])\<lparr>reads := 1, mutex := False, thread := Some Exited\<rparr>) = None \<and>
   exec (start_call @ [Worker, Worker, Worker]) (Converter []) = Some exhausted_state \<and>
   sink exhausted_state = [] \<and> consumed exhausted_state = []"
  using end_of_stream_exits_cleanly
    [of "reading_state []" "[Worker]" "start_call @ [Worker, Worker, Worker]" exhausted_state]
    exec_exhausted
  by (simp add: reading_state_sel exhausted_state_sel del: step.simps exec.simps)

text \<open>
  Claim C7. A call of \<open>start()\<close> on a converter whose \<open>running_\<close> is set returns after
  its test and leaves the state as the steps of the worker alone would have left it.
  After a first call of \<open>start()\<close> has returned, on any interleaving, \<open>running_\<close> is
  set, a worker thread exists, \<open>std::terminate\<close> was not called, and one thread was
  created if the converter was stopped and none if it was running; a second call then
  changes nothing and creates no thread.
\<close>

theorem start_idempotent:
  "(caller s = Idle \<and> \<not> terminated s \<and> running s \<and>
    set ws \<subseteq> {Worker, Spurious} \<and> exec ws s = Some t \<longrightarrow>
      exec (Call_start # ws @ [Caller]) s = Some t) \<and>
   (exec sched (Converter src) = Some s0 \<and> caller s0 = Idle \<and>
    set r \<subseteq> {Caller, Worker, Spurious} \<and> exec (Call_start # r) s0 = Some s1 \<and>
    caller s1 = Idle \<and> set ws' \<subseteq> {Worker, Spurious} \<and> exec ws' s1 = Some s2 \<longrightarrow>
      running s1 \<and> \<not> terminated s1 \<and> thread s1 \<noteq> None \<and>
      spawned s1 = (if running s0 then spawned s0 else Suc (spawned s0)) \<and>
      exec (Call_start # ws' @ [Caller]) s1 = Some s2 \<and>
      running s2 \<and> \<not> terminated s2 \<and> thread s2 \<noteq> None \<and> spawned s2 = spawned s1)"
proof (intro conjI impI)
  assume "caller s = Idle \<and> \<not> terminated s \<and> running s \<and>
    set ws \<subseteq> {Worker, Spurious} \<and> exec ws s = Some t"
  then show "exec (Call_start # ws @ [Caller]) s = Some t"
    by (intro start_noop) simp_all
next
  assume a: "exec sched (Converter src) = Some s0 \<and> caller s0 = Idle \<and>
    set r \<subseteq> {Caller, Worker, Spurious} \<and> exec (Call_start # r) s0 = Some s1 \<and>
    caller s1 = Idle \<and> set ws' \<subseteq> {Worker, Spurious} \<and> exec ws' s1 = Some s2"
  then have a1: "exec sched (Converter src) = Some s0" and a2: "caller s0 = Idle"
    and a3: "set r \<subseteq> {Caller, Worker, Spurious}"
    and a4: "exec (Call_start # r) s0 = Some s1" and a5: "caller s1 = Idle"
    and ws: "set ws' \<subseteq> {Worker, Spurious}" "exec ws' s1 = Some s2"
    by blast+
  from first_start_returns [OF reachable_lifecycle_inv [OF a1] a2 a3 a4 a5]
  have s1: "running s1" "\<not> terminated s1" "thread s1 \<noteq> None"
    "spawned s1 = (if running s0 then spawned s0 else Suc (spawned s0))" by blast+
  from start_noop [OF a5 s1(2) s1(1) ws]
  have n: "exec (Call_start # ws' @ [Caller]) s1 = Some s2" .
  from exec_worker_frame [OF ws] s1
  have s2: "running s2" "\<not> terminated s2" "thread s2 \<noteq> None" "spawned s2 = spawned s1"
    by simp_all
  show "running s1" "\<not> terminated s1" "thread s1 \<noteq> None"
    "spawned s1 = (if running s0 then spawned s0 else Suc (spawned s0))"
    "exec (Call_start # ws' @ [Caller]) s1 = Some s2"
    "running s2" "\<not> terminated s2" "thread s2 \<noteq> None" "spawned s2 = spawned s1"
    by (fact s1 n s2)+
qed

theorem start_idempotent_witness:
  "caller (started_state [0x05]) = Idle \<and> \<not> terminated (started_state [0x05]) \<and>
   running (started_state [0x05]) \<and>
   exec [Worker] (started_state [0x05]) =
     Some ((started_state [0x05])\<lparr>thread := Some At_lock\<rparr>) \<and>
   exec (Call_start # [Worker] @ [Caller]) (started_state [0x05]) =
     Some ((started_state [0x05])\<lparr>thread := Some At_lock\<rparr>) \<and>
   exec [] (Converter [0x05]) = Some (Converter [0x05]) \<and>
   caller (Converter [0x05]) = Idle \<and> \<not> running (Converter [0x05]) \<and>
   exec (Call_start # [Caller, Caller, Caller]) (Converter [0x05]) =
     Some (started_state [0x05]) \<and>
   spawned (Converter [0x05]) = 0 \<and> spawned (started_state [0x05]) = 1 \<and>
   spawned ((started_state [0x05])\<lparr>thread := Some At_lock\<rparr>) = 1"
  using start_idempotent
    [of "started_state [0x05]" "[Worker]" "(started_state [0x05])\<lparr>thread := Some At_lock\<rparr>"
      "[]" "[0x05]" "Converter [0x05]" "[Caller, Caller, Caller]" "started_state [0x05]"
      "[Worker]" "(started_state [0x05])\<lparr>thread := Some At_lock\<rparr>"]
    exec_started_worker [of "[0x05]"] exec_first_start [of "[0x05]"]
  by (simp add: started_state_sel Converter_sel del: step.simps exec.simps) simp

text \<open>
  Claim C8. After a call of \<open>stop()\<close> has returned, on any interleaving, \<open>running_\<close> is
  false and there is no thread to join, and a second call returns after its test, by
  steps of the owner alone, leaving the state unchanged. When the worker has exited on
  its own and \<open>running_\<close> is still set, a call of \<open>stop()\<close> runs to its end by steps
  of the owner alone: it clears the flag and joins the finished thread.
\<close>

theorem stop_is_safe_when_nothing_to_stop:
  "(exec sched (Converter src) = Some s0 \<and> caller s0 = Idle \<and>
    set r \<subseteq> {Caller, Worker, Spurious} \<and> exec (Call_stop # r) s0 = Some s1 \<and>
    caller s1 = Idle \<longrightarrow>
      \<not> running s1 \<and> \<not> terminated s1 \<and> thread s1 = None \<and>
      exec [Call_stop, Caller] s1 = Some s1) \<and>
   (thread s = Some Exited \<and> running s \<and> caller s = Idle \<and> \<not> terminated s \<longrightarrow>
      exec stop_call s = Some (s\<lparr>running := False, thread := None\<rparr>))"
proof (intro conjI impI)
  assume "exec sched (Converter src) = Some s0 \<and> caller s0 = Idle \<and>
    set r \<subseteq> {Caller, Worker, Spurious} \<and> exec (Call_stop # r) s0 = Some s1 \<and>
    caller s1 = Idle"
  then have a1: "exec sched (Converter src) = Some s0" and a2: "caller s0 = Idle"
    and a3: "set r \<subseteq> {Caller, Worker, Spurious}"
    and a4: "exec (Call_stop # r) s0 = Some s1" and a5: "caller s1 = Idle"
    by blast+
  from first_stop_returns [OF reachable_lifecycle_inv [OF a1] a2 a3 a4 a5]
  have s1: "\<not> running s1" "\<not> terminated s1" "thread s1 = None" by blast+
  have n: "exec [Call_stop, Caller] s1 = Some s1"
    using a5 s1(2) s1(1) by (rule stop_noop)
  show "\<not> running s1" "\<not> terminated s1" "thread s1 = None"
    "exec [Call_stop, Caller] s1 = Some s1"
    by (fact s1 n)+
next
  assume "thread s = Some Exited \<and> running s \<and> caller s = Idle \<and> \<not> terminated s"
  then show "exec stop_call s = Some (s\<lparr>running := False, thread := None\<rparr>)"
    by (intro stop_exited_worker) blast+
qed

theorem stop_is_safe_when_nothing_to_stop_witness:
  "exec (start_call @ [Worker, Worker, Worker, Worker, Worker]) (Converter [0x05]) =
     Some paused_state \<and> caller paused_state = Idle \<and>
   exec (Call_stop # [Caller, Caller, Caller, Worker, Worker, Caller, Caller]) paused_state =
     Some stopped_state \<and> caller stopped_state = Idle \<and>
   \<not> running stopped_state \<and> thread stopped_state = None \<and>
   exec [Call_stop, Caller] stopped_state = Some stopped_state \<and>
   thread exhausted_state = Some Exited \<and> running exhausted_state \<and>
   caller exhausted_state = Idle \<and> \<not> terminated exhausted_state \<and>
   exec stop_call exhausted_state = Some (exhausted_state\<lparr>running := False, thread := None\<rparr>)"
  using stop_is_safe_when_nothing_to_stop
    [of "start_call @ [Worker, Worker, Worker, Worker, Worker]" "[0x05]" paused_state
      "[Caller, Caller, Caller, Worker, Worker, Caller, Caller]" stopped_state exhausted_state]
    exec_paused exec_stopped
  by (simp add: paused_stopped_sel exhausted_state_sel del: step.simps exec.simps)

text \<open>
  Claim C9 says that \<open>stop()\<close> on a running converter clears the flag, wakes the
  paused worker and returns once the worker has exited, the wake signal never being
  missed because the flag and the wait are guarded by one lock. The code departs from
  it: \<open>stop()\<close> clears the flag and notifies without holding the mutex, and the worker
  tests the flag before it locks. On the
  schedule below the worker passes the test, \<open>stop()\<close> then clears the flag, notifies
  nobody and blocks in \<open>join\<close>, and the worker goes on to write and to wait. In the
  state reached neither thread can move and no call can be made: only a spurious
  wakeup would let \<open>stop()\<close> return.
\<close>

theorem stop_misses_the_wakeup:
  "exec lost_wakeup_schedule (Converter [0x05]) = Some lost_wakeup_state \<and>
   step Caller lost_wakeup_state = None \<and> step Worker lost_wakeup_state = None \<and>
   step Call_start lost_wakeup_state = None \<and> step Call_stop lost_wakeup_state = None"
proof -
  have c: "convert 0x05 = Some ''5''" by code_simp
  show ?thesis
    by (simp add: lost_wakeup_schedule_def lost_wakeup_state_def Converter_def c notify_all_def)
qed

text \<open>
  Claim C10. The step by which the worker leaves the loop at the end of the stream
  does not change \<open>running_\<close>. In every state the converter reaches, on every schedule,
  in which the owner is between calls and the worker has exited without being joined,
  \<open>running_\<close> is still set and the source is at its end. In such a state any number
  of calls of \<open>start()\<close> change nothing and create no worker; a call of \<open>stop()\<close>
  clears the flag and joins the finished thread, and a call of \<open>start()\<close> after it
  creates a new worker.
\<close>

theorem running_left_set_after_end_of_stream:
  "(\<not> terminated t \<and> thread t = Some At_read \<and> source t = [] \<longrightarrow>
      (\<exists>t'. step Worker t = Some t' \<and> thread t' = Some Exited \<and> running t' = running t)) \<and>
   (exec sched (Converter src) = Some s \<and> thread s = Some Exited \<and> caller s = Idle \<longrightarrow>
      running s \<and> source s = [] \<and>
      exec (concat (replicate n [Call_start, Caller])) s = Some s \<and>
      exec stop_call s = Some (s\<lparr>running := False, thread := None\<rparr>) \<and>
      exec (stop_call @ start_call) s =
        Some (s\<lparr>running := True, thread := Some At_while, spawned := Suc (spawned s)\<rparr>))"
proof (intro conjI impI)
  assume "\<not> terminated t \<and> thread t = Some At_read \<and> source t = []"
  then show "\<exists>t'. step Worker t = Some t' \<and> thread t' = Some Exited \<and> running t' = running t"
    by simp
next
  assume a: "exec sched (Converter src) = Some s \<and> thread s = Some Exited \<and> caller s = Idle"
  then have inv: "exit_inv s"
    using exec_exit_inv [OF _ exit_inv_Converter, of sched src s] by blast
  from a have th: "thread s = Some Exited" and c: "caller s = Idle" by blast+
  from exited_between_calls [OF inv th c]
  have r: "running s" and e: "source s = []" and t: "\<not> terminated s" by blast+
  have st: "exec stop_call s = Some (s\<lparr>running := False, thread := None\<rparr>)"
    using th r c t by (rule stop_exited_worker)
  have "exec start_call (s\<lparr>running := False, thread := None\<rparr>) =
          Some (s\<lparr>running := True, thread := Some At_while, spawned := Suc (spawned s)\<rparr>)"
    using c t by (simp add: start_stopped)
  with st have ss: "exec (stop_call @ start_call) s =
       Some (s\<lparr>running := True, thread := Some At_while, spawned := Suc (spawned s)\<rparr>)"
    by (simp add: exec_append)
  show "running s" "source s = []"
    "exec (concat (replicate n [Call_start, Caller])) s = Some s"
    "exec stop_call s = Some (s\<lparr>running := False, thread := None\<rparr>)"
    "exec (stop_call @ start_call) s =
       Some (s\<lparr>running := True, thread := Some At_while, spawned := Suc (spawned s)\<rparr>)"
    by (fact r e st ss start_noop_repeated [OF c t r, of n])+
qed

theorem running_left_set_after_end_of_stream_witness:
  "thread (reading_state []) = Some At_read \<and> source (reading_state []) = [] \<and>
   running (reading_state []) \<and>
   (\<exists>t'. step Worker (reading_state []) = Some t' \<and> thread t' = Some Exited \<and> running t') \<and>
   exec (start_call @ [Worker, Worker, Worker]) (Converter []) = Some exhausted_state \<and>
   thread exhausted_state = Some Exited \<and> caller exhausted_state = Idle \<and>
   running exhausted_state \<and>
   exec (concat (replicate 2 [Call_start, Caller])) exhausted_state = Some exhausted_state \<and>
   exec (stop_call @ start_call) exhausted_state =
     Some (exhausted_state\<lparr>running := True, thread := Some At_while, spawned := 2\<rparr>)"
  using running_left_set_after_end_of_stream
    [of "reading_state []" "start_call @ [Worker, Worker, Worker]" "[]" exhausted_state 2]
    exec_exhausted
  by (simp add: reading_state_sel exhausted_state_sel del: step.simps exec.simps)

end
